theory Spec2Isabelle
  imports Complex_Main
begin

section \<open>Python string primitives used by the pipeline\<close>

text \<open>
  A Python \<open>str\<close> is a sequence of code points and \<open>len\<close> counts them. It is modelled
  as a \<open>string\<close>, one \<open>char\<close> per code point, which covers the code points below 256.
\<close>

text \<open>
  \<open>str.isspace\<close> on one character. Below 256 the whitespace code points are
  9 to 13, 28 to 32, 133 and 160.
\<close>

definition isspace :: "char \<Rightarrow> bool" where
  "isspace c =
     (let n = (of_char c :: nat)
      in (9 \<le> n \<and> n \<le> 13) \<or> (28 \<le> n \<and> n \<le> 32) \<or> n = 133 \<or> n = 160)"

text \<open>\<open>str.strip()\<close>: whitespace removed at both ends.\<close>

definition strip :: "string \<Rightarrow> string" where
  "strip s = dropWhile isspace (rev (dropWhile isspace (rev s)))"

text \<open>
  \<open>text.split(". ")\<close>: the pieces between the non-overlapping occurrences of the
  separator, found from the left. The result always has at least one piece.
\<close>

fun cons_hd :: "char \<Rightarrow> string list \<Rightarrow> string list" where
  "cons_hd c [] = [[c]]"
| "cons_hd c (f # fs) = (c # f) # fs"

fun split_sep :: "string \<Rightarrow> string list" where
  "split_sep [] = [[]]"
| "split_sep [c] = [[c]]"
| "split_sep (c # d # cs) =
     (if c = CHR ''.'' \<and> d = CHR '' '' then [] # split_sep cs
      else cons_hd c (split_sep (d # cs)))"

text \<open>\<open>str(i)\<close> for a non-negative integer: its decimal digits.\<close>

definition digit_char :: "nat \<Rightarrow> char" where
  "digit_char d = char_of (48 + d)"

function str_nat :: "nat \<Rightarrow> string" where
  "str_nat n = (if n < 10 then [digit_char n] else str_nat (n div 10) @ [digit_char (n mod 10)])"
  by pat_completeness auto
termination
  by (relation "measure id") auto

declare str_nat.simps [simp del]

section \<open>Chunker: \<open>VectorStore._split_text\<close>\<close>

text \<open>
  The \<open>for\<close> loop over the sentences, with the list of finished chunks and the running
  buffer as loop state. \<open>chunk_size\<close> is a Python integer.
\<close>

fun split_loop :: "int \<Rightarrow> string list \<Rightarrow> string \<Rightarrow> string list \<Rightarrow> string list \<times> string" where
  "split_loop chunk_size chunks current_chunk [] = (chunks, current_chunk)"
| "split_loop chunk_size chunks current_chunk (sentence # sentences) =
     (if int (length current_chunk) + int (length sentence) < chunk_size
      then split_loop chunk_size chunks (current_chunk @ sentence @ ''. '') sentences
      else split_loop chunk_size (chunks @ [strip current_chunk]) (sentence @ ''. '') sentences)"

definition split_text :: "string \<Rightarrow> int \<Rightarrow> string list" where
  "split_text text chunk_size =
     (case split_loop chunk_size [] [] (split_sep text) of
        (chunks, current_chunk) \<Rightarrow>
          if current_chunk \<noteq> [] then chunks @ [strip current_chunk] else chunks)"

section \<open>Providers, the remote index and the store object\<close>

text \<open>
  An embedding is a list of floats that this code only passes on. The metadata of an index
  entry is a dictionary with string keys; its values are strings here.
\<close>

type_synonym embedding = "real list"
type_synonym metadata = "(string \<times> string) list"

text \<open>The dictionary \<open>{"id": ..., "values": ..., "metadata": ...}\<close> sent to \<open>upsert\<close>.\<close>

record vec =
  vec_id :: string
  vec_values :: embedding
  vec_metadata :: metadata

datatype input_type = search_document | search_query

datatype error = ValueError | KeyError | IndexError | FileError

text \<open>The requests this code sends to its providers, one constructor per client method.\<close>

datatype call =
    Embed "string list" input_type
  | Rerank string "string list" nat
  | ChatStream string "metadata list" string
  | ListIndexes
  | CreateIndex string nat
  | DescribeIndex string
  | DeleteAll string
  | Upsert string "vec list"
  | Query string embedding nat
  | DescribeIndexStats string

text \<open>
  What the providers answer. \<open>pdf_pages\<close> is the text of each page of the file at a path
  (\<open>None\<close> when the file cannot be opened); \<open>co_embed\<close>, \<open>co_rerank\<close> and
  \<open>co_chat_stream\<close> are the answers of the embedding, rerank and generation endpoints
  (the rerank answer reduced to the \<open>index\<close> field of each result, the stream to the text
  of its events); \<open>index_ready k\<close> is the \<open>ready\<close> flag in the answer to the \<open>k\<close>-th
  \<open>describe_index\<close> after a creation; \<open>index_query\<close> is the list of matches of a query
  on given index contents, each match reduced to its metadata. A provider call is taken
  to return: none of the functions below catches an exception.
\<close>

record providers =
  pdf_pages :: "string \<Rightarrow> string list option"
  co_embed :: "string list \<Rightarrow> input_type \<Rightarrow> embedding list"
  co_rerank :: "string \<Rightarrow> string list \<Rightarrow> nat \<Rightarrow> nat list"
  co_chat_stream :: "string \<Rightarrow> metadata list \<Rightarrow> string \<Rightarrow> string list"
  index_ready :: "nat \<Rightarrow> bool"
  index_query :: "(string \<rightharpoonup> embedding \<times> metadata) \<Rightarrow> embedding \<Rightarrow> nat \<Rightarrow> metadata list"

text \<open>
  The state outside the process: the names of the existing indexes, the entries of each
  index by id, and the requests sent so far, oldest first.
\<close>

record world =
  pc_indexes :: "string list"
  pc_data :: "string \<Rightarrow> (string \<rightharpoonup> embedding \<times> metadata)"
  calls :: "call list"

text \<open>
  The fields of a \<open>VectorStore\<close> object; \<open>index\<close> is \<open>None\<close> or a handle on the index
  of that name.
\<close>

record vectorstore =
  index_name :: string
  index :: "string option"
  retrieve_top_k :: nat
  rerank_top_k :: nat
  dimension :: nat

definition log_call :: "call \<Rightarrow> world \<Rightarrow> world" where
  "log_call c w = w\<lparr>calls := calls w @ [c]\<rparr>"

text \<open>Python's \<open>xs[i:j]\<close> for non-negative \<open>i\<close> and \<open>j\<close>.\<close>

definition slice :: "'a list \<Rightarrow> nat \<Rightarrow> nat \<Rightarrow> 'a list" where
  "slice xs i j = take (j - i) (drop i xs)"

section \<open>Text extraction: \<open>VectorStore._extract_text_from_pdf\<close>\<close>

fun extract_loop :: "string \<Rightarrow> string list \<Rightarrow> string" where
  "extract_loop text [] = text"
| "extract_loop text (page # pages) = extract_loop (text @ page) pages"

definition extract_text_from_pdf :: "providers \<Rightarrow> string \<Rightarrow> error + string" where
  "extract_text_from_pdf p pdf_path =
     (case pdf_pages p pdf_path of
        None \<Rightarrow> Inl FileError
      | Some pages \<Rightarrow> Inr (extract_loop [] pages))"

section \<open>Embedding in batches: \<open>VectorStore._embed_chunks\<close>\<close>

text \<open>
  The loop \<open>for i in range(0, total_chunks, batch_size)\<close> for a positive step, with
  \<open>i\<close>, the embeddings so far and the world as loop state.
\<close>

function embed_loop ::
  "providers \<Rightarrow> string list \<Rightarrow> nat \<Rightarrow> nat \<Rightarrow> embedding list \<Rightarrow> world \<Rightarrow> embedding list \<times> world" where
  "embed_loop p chunks batch_size i embeddings w =
     (if batch_size = 0 \<or> length chunks \<le> i then (embeddings, w)
      else embed_loop p chunks batch_size (i + batch_size)
             (embeddings @ co_embed p (slice chunks i (min (i + batch_size) (length chunks))) search_document)
             (log_call (Embed (slice chunks i (min (i + batch_size) (length chunks))) search_document) w))"
  by pat_completeness auto
termination
  by (relation "measure (\<lambda>(p, chunks, batch_size, i, embeddings, w). length chunks - i)") auto

declare embed_loop.simps [simp del]

text \<open>\<open>range\<close> raises \<open>ValueError\<close> for a zero step and is empty for a negative one.\<close>

definition embed_chunks ::
  "providers \<Rightarrow> world \<Rightarrow> string list \<Rightarrow> int \<Rightarrow> error + embedding list \<times> world" where
  "embed_chunks p w chunks batch_size =
     (if batch_size = 0 then Inl ValueError
      else if batch_size < 0 then Inr ([], w)
      else Inr (embed_loop p chunks (nat batch_size) 0 [] w))"

section \<open>Indexing: \<open>VectorStore._index_chunks\<close>\<close>

text \<open>
  The loop that polls \<open>describe_index\<close> until the index is ready. It returns the number
  of answers that were not ready, and does not return when every answer is.
\<close>

partial_function (option) wait_ready :: "(nat \<Rightarrow> bool) \<Rightarrow> nat \<Rightarrow> nat option" where
  "wait_ready ready k = (if ready k then Some k else wait_ready ready (Suc k))"

text \<open>The index operations \<open>delete(delete_all=True)\<close> and \<open>upsert(vectors=batch)\<close>.\<close>

definition index_delete_all :: "string \<Rightarrow> world \<Rightarrow> world" where
  "index_delete_all h w = log_call (DeleteAll h) (w\<lparr>pc_data := (pc_data w)(h := Map.empty)\<rparr>)"

definition upsert_vec :: "vec \<Rightarrow> (string \<rightharpoonup> embedding \<times> metadata) \<Rightarrow> (string \<rightharpoonup> embedding \<times> metadata)" where
  "upsert_vec v m = m(vec_id v \<mapsto> (vec_values v, vec_metadata v))"

definition index_upsert :: "string \<Rightarrow> vec list \<Rightarrow> world \<Rightarrow> world" where
  "index_upsert h batch w =
     log_call (Upsert h batch) (w\<lparr>pc_data := (pc_data w)(h := fold upsert_vec batch (pc_data w h))\<rparr>)"

text \<open>The list built from \<open>enumerate(zip(chunks, embeddings))\<close>.\<close>

definition vectors_to_upsert :: "string list \<Rightarrow> embedding list \<Rightarrow> vec list" where
  "vectors_to_upsert chunks embeddings =
     map (\<lambda>(i, chunk, embedding).
            \<lparr>vec_id = str_nat i, vec_values = embedding, vec_metadata = [(''text'', chunk)]\<rparr>)
         (List.enumerate 0 (zip chunks embeddings))"

text \<open>The loop \<open>for i in range(0, len(vectors_to_upsert), batch_size)\<close> with batch size 100.\<close>

function upsert_loop :: "string \<Rightarrow> vec list \<Rightarrow> nat \<Rightarrow> world \<Rightarrow> world" where
  "upsert_loop h vectors i w =
     (if length vectors \<le> i then w
      else upsert_loop h vectors (i + 100) (index_upsert h (slice vectors i (i + 100)) w))"
  by pat_completeness auto
termination
  by (relation "measure (\<lambda>(h, vectors, i, w). length vectors - i)") auto

declare upsert_loop.simps [simp del]

text \<open>
  The first step creates the index when its name is not listed and waits for it; a new
  index has no entries.
\<close>

definition ensure_index :: "providers \<Rightarrow> vectorstore \<Rightarrow> world \<Rightarrow> world option" where
  "ensure_index p vs w =
     (if index_name vs \<notin> set (pc_indexes w)
      then (case wait_ready (index_ready p) 0 of
              None \<Rightarrow> None
            | Some k \<Rightarrow>
                Some (w\<lparr>pc_indexes := pc_indexes w @ [index_name vs],
                        pc_data := (pc_data w)(index_name vs := Map.empty),
                        calls := calls w @ [ListIndexes, CreateIndex (index_name vs) (dimension vs)]
                                   @ replicate (Suc k) (DescribeIndex (index_name vs))\<rparr>))
      else Some (log_call ListIndexes w))"

definition index_chunks ::
  "providers \<Rightarrow> vectorstore \<Rightarrow> world \<Rightarrow> string list \<Rightarrow> embedding list \<Rightarrow> (vectorstore \<times> world) option" where
  "index_chunks p vs w chunks embeddings =
     (case ensure_index p vs w of
        None \<Rightarrow> None
      | Some w1 \<Rightarrow>
          Some (vs\<lparr>index := Some (index_name vs)\<rparr>,
                log_call (DescribeIndexStats (index_name vs))
                  (upsert_loop (index_name vs) (vectors_to_upsert chunks embeddings) 0
                     (index_delete_all (index_name vs) w1))))"

section \<open>Ingestion: \<open>VectorStore.process_document\<close>\<close>

text \<open>
  The method returns nothing; the model returns which of its three \<open>return\<close> points was
  reached, with the store object and the world as they are then. It does not return when
  the wait for the index does not.
\<close>

datatype outcome = NoChunks | NoEmbeddings | Finished

definition process_document ::
  "providers \<Rightarrow> vectorstore \<Rightarrow> world \<Rightarrow> string \<Rightarrow> (error + outcome \<times> vectorstore \<times> world) option" where
  "process_document p vs w pdf_path =
     (case extract_text_from_pdf p pdf_path of
        Inl e \<Rightarrow> Some (Inl e)
      | Inr pdf_text \<Rightarrow>
          (let chunks = split_text pdf_text 1000 in
           if chunks = [] then Some (Inr (NoChunks, vs, w))
           else (case embed_chunks p w chunks 90 of
                   Inl e \<Rightarrow> Some (Inl e)
                 | Inr (embeddings, w1) \<Rightarrow>
                     if embeddings = [] then Some (Inr (NoEmbeddings, vs, w1))
                     else (case index_chunks p vs w1 chunks embeddings of
                             None \<Rightarrow> None
                           | Some (vs', w2) \<Rightarrow> Some (Inr (Finished, vs', w2))))))"

section \<open>Retrieval: \<open>VectorStore.retrieve\<close>\<close>

text \<open>The comprehension \<open>[match['metadata']['text'] for match in res['matches']]\<close>.\<close>

fun docs_texts :: "metadata list \<Rightarrow> error + string list" where
  "docs_texts [] = Inr []"
| "docs_texts (m # ms) =
     (case map_of m ''text'' of
        None \<Rightarrow> Inl KeyError
      | Some t \<Rightarrow> (case docs_texts ms of Inl e \<Rightarrow> Inl e | Inr ts \<Rightarrow> Inr (t # ts)))"

text \<open>The loop over the rerank results, reading \<open>res['matches'][result.index]\<close>.\<close>

fun reranked_docs :: "metadata list \<Rightarrow> metadata list \<Rightarrow> nat list \<Rightarrow> error + metadata list" where
  "reranked_docs matches acc [] = Inr acc"
| "reranked_docs matches acc (i # results) =
     (if i < length matches then reranked_docs matches (acc @ [matches ! i]) results
      else Inl IndexError)"

definition retrieve ::
  "providers \<Rightarrow> vectorstore \<Rightarrow> world \<Rightarrow> string \<Rightarrow> error + metadata list \<times> world" where
  "retrieve p vs w query =
     (case index vs of
        None \<Rightarrow> Inr ([], w)
      | Some h \<Rightarrow>
          (case co_embed p [query] search_query of
             [] \<Rightarrow> Inl IndexError
           | query_emb # _ \<Rightarrow>
               (let w1 = log_call (Embed [query] search_query) w;
                    matches = index_query p (pc_data w1 h) query_emb (retrieve_top_k vs);
                    w2 = log_call (Query h query_emb (retrieve_top_k vs)) w1
                in case docs_texts matches of
                     Inl e \<Rightarrow> Inl e
                   | Inr docs_to_rerank \<Rightarrow>
                       if docs_to_rerank = [] then Inr ([], w2)
                       else (case reranked_docs matches []
                                    (co_rerank p query docs_to_rerank (rerank_top_k vs)) of
                               Inl e \<Rightarrow> Inl e
                             | Inr docs \<Rightarrow>
                                 Inr (docs, log_call (Rerank query docs_to_rerank (rerank_top_k vs)) w2)))))"

section \<open>Answering: \<open>Chatbot.respond\<close>\<close>

text \<open>The loop over \<open>search_queries\<close>, extending the list of retrieved documents.\<close>

fun retrieve_all ::
  "providers \<Rightarrow> vectorstore \<Rightarrow> world \<Rightarrow> metadata list \<Rightarrow> string list \<Rightarrow> error + metadata list \<times> world" where
  "retrieve_all p vs w retrieved [] = Inr (retrieved, w)"
| "retrieve_all p vs w retrieved (query # queries) =
     (case retrieve p vs w query of
        Inl e \<Rightarrow> Inl e
      | Inr (docs, w') \<Rightarrow> retrieve_all p vs w' (retrieved @ docs) queries)"

text \<open>
  The de-duplication loop. \<open>unique_docs\<close> is a dictionary, which keeps its keys in the
  order of their first insertion: an association list with distinct keys, a new key
  added at the end.
\<close>

fun dedup_loop :: "(string \<times> metadata) list \<Rightarrow> metadata list \<Rightarrow> error + (string \<times> metadata) list" where
  "dedup_loop unique_docs [] = Inr unique_docs"
| "dedup_loop unique_docs (doc # docs) =
     (case map_of doc ''text'' of
        None \<Rightarrow> Inl KeyError
      | Some t \<Rightarrow>
          if t \<notin> set (map fst unique_docs) then dedup_loop (unique_docs @ [(t, doc)]) docs
          else dedup_loop unique_docs docs)"

text \<open>
  \<open>respond\<close> on a chatbot whose \<open>vectorstore\<close> field refers to the store object \<open>vs\<close>
  and whose conversation id is \<open>conversation_id\<close>. The result is the stream of the
  generation provider.
\<close>

definition respond ::
  "providers \<Rightarrow> vectorstore \<Rightarrow> string \<Rightarrow> world \<Rightarrow> string \<Rightarrow> error + string list \<times> world" where
  "respond p vs conversation_id w user_message =
     (case retrieve_all p vs w [] [user_message] of
        Inl e \<Rightarrow> Inl e
      | Inr (retrieved_docs_metadata, w1) \<Rightarrow>
          (case dedup_loop [] retrieved_docs_metadata of
             Inl e \<Rightarrow> Inl e
           | Inr unique_docs \<Rightarrow>
               (let final_documents = map snd unique_docs
                in Inr (co_chat_stream p user_message final_documents conversation_id,
                        log_call (ChatStream user_message final_documents conversation_id) w1))))"

section \<open>Predicates for the loop invariants\<close>

text \<open>
  A finished chunk is empty, or within the size, or one fragment of at least the size
  with its delimiter, stripped. The buffer is empty, or ends in a space after at most
  \<open>chunk_size\<close> characters, or is one fragment of at least the size with its delimiter.
\<close>

definition chunk_ok :: "int \<Rightarrow> string set \<Rightarrow> string \<Rightarrow> bool" where
  "chunk_ok n F c =
     (c = [] \<or> int (length c) \<le> n \<or> (\<exists>s\<in>F. c = strip (s @ ''. '') \<and> n \<le> int (length s)))"

definition buffer_ok :: "int \<Rightarrow> string set \<Rightarrow> string \<Rightarrow> bool" where
  "buffer_ok n F b =
     (b = [] \<or> (\<exists>b'. b = b' @ '' '' \<and> int (length b') \<le> n) \<or>
      (\<exists>s\<in>F. b = s @ ''. '' \<and> n \<le> int (length s)))"

section \<open>A concrete environment for evaluating instances\<close>

text \<open>
  Providers that answer in the simplest way: two files, one without pages and one with a
  page of a thousand letters; an embedding that is the length of the text; a rerank
  that returns the last candidates first; an index that is ready at the third poll and
  whose query returns the metadata of entry \<open>"0"\<close> twice when there is one.
\<close>

definition demo_providers :: providers where
  "demo_providers =
     \<lparr>pdf_pages = (\<lambda>path. if path = ''empty.pdf'' then Some []
                           else if path = ''long.pdf'' then Some [replicate 1000 CHR ''a'']
                           else None),
      co_embed = (\<lambda>texts t. map (\<lambda>s. [real (length s)]) texts),
      co_rerank = (\<lambda>query docs top_n. take top_n (rev [0..<length docs])),
      co_chat_stream = (\<lambda>message docs conversation_id. [''ok'']),
      index_ready = (\<lambda>k. 2 \<le> k),
      index_query = (\<lambda>m v top_k. case m ''0'' of None \<Rightarrow> [] | Some (e, md) \<Rightarrow> [md, md])\<rparr>"

text \<open>
  A store object as the constructor leaves it (with its fallback dimension), and a world
  without any index.
\<close>

definition demo_store :: vectorstore where
  "demo_store =
     \<lparr>index_name = ''rag-qa-bot'', index = None, retrieve_top_k = 10, rerank_top_k = 3,
      dimension = 1024\<rparr>"

definition demo_world :: world where
  "demo_world = \<lparr>pc_indexes = [], pc_data = (\<lambda>name. Map.empty), calls = []\<rparr>"

text \<open>The store object and the world after a document with the one chunk \<open>"gamma"\<close>.\<close>

definition demo_indexed_store :: vectorstore where
  "demo_indexed_store = demo_store\<lparr>index := Some ''rag-qa-bot''\<rparr>"

definition demo_indexed_world :: world where
  "demo_indexed_world =
     \<lparr>pc_indexes = [''rag-qa-bot''],
      pc_data = (\<lambda>name. Map.empty)(''rag-qa-bot'' := [''0'' \<mapsto> ([5], [(''text'', ''gamma'')])]),
      calls = []\<rparr>"

section \<open>Predicates for the de-duplication loop\<close>

text \<open>
  The elements of a list in the order of their first occurrence, and what the loop keeps
  true: every key of the dictionary is the text of its document, the keys are the old
  keys followed by the new texts in the order of their first occurrence, and a new
  entry holds the first document with its text.
\<close>

definition first_seen :: "'a list \<Rightarrow> 'a list" where
  "first_seen xs = rev (remdups (rev xs))"

definition dedup_inv ::
  "(string \<times> metadata) list \<Rightarrow> metadata list \<Rightarrow> (string \<times> metadata) list \<Rightarrow> bool" where
  "dedup_inv u docs r =
     ((\<forall>(t, d)\<in>set r. map_of d ''text'' = Some t) \<and>
      map (\<lambda>(t, d). Some t) r =
        map (\<lambda>(t, d). Some t) u @
        filter (\<lambda>k. k \<notin> set (map (\<lambda>(t, d). Some t) u))
          (first_seen (map (\<lambda>d. map_of d ''text'') docs)) \<and>
      (\<forall>t d. (t, d) \<in> set r \<longrightarrow> (t, d) \<in> set u \<or>
          (t \<notin> set (map fst u) \<and> find (\<lambda>e. map_of e ''text'' = Some t) docs = Some d)))"

section \<open>The chunker: lemmas\<close>

lemma isspace_space: "isspace CHR '' ''"
  by (simp add: isspace_def)

lemma strip_Nil: "strip [] = []"
  by (simp add: strip_def)

lemma length_strip_space: "length (strip (b @ '' '')) \<le> length b"
proof -
  have "strip (b @ '' '') = dropWhile isspace (rev (dropWhile isspace (rev b)))"
    by (simp add: strip_def isspace_space)
  moreover have "length (dropWhile isspace (rev (dropWhile isspace (rev b))))
      \<le> length (dropWhile isspace (rev b))"
    using length_dropWhile_le [of isspace "rev (dropWhile isspace (rev b))"] by simp
  moreover have "length (dropWhile isspace (rev b)) \<le> length b"
    using length_dropWhile_le [of isspace "rev b"] by simp
  ultimately show ?thesis by simp
qed

lemma cons_hd_not_Nil: "cons_hd c fs \<noteq> []"
  by (cases fs) simp_all

lemma split_sep_not_Nil: "split_sep t \<noteq> []"
  by (induction t rule: split_sep.induct) (simp_all add: cons_hd_not_Nil)


lemma split_loop_buffer:
  "current_chunk \<noteq> [] \<Longrightarrow> snd (split_loop n chunks current_chunk ss) \<noteq> []"
  by (induction ss arbitrary: chunks current_chunk) simp_all


lemma split_text_not_Nil: "split_text t n \<noteq> []"
proof -
  obtain s ss where ss: "split_sep t = s # ss"
    using split_sep_not_Nil [of t] by (cases "split_sep t") auto
  obtain chunks cur where r: "split_loop n [] [] (s # ss) = (chunks, cur)"
    by (cases "split_loop n [] [] (s # ss)")
  have "snd (split_loop n [] [] (s # ss)) \<noteq> []"
    by (simp add: split_loop_buffer)
  with r have "cur \<noteq> []" by simp
  then show ?thesis by (simp add: split_text_def ss r del: split_loop.simps)
qed


lemma buffer_ok_strip: "buffer_ok n F b \<Longrightarrow> chunk_ok n F (strip b)"
proof -
  assume "buffer_ok n F b"
  then consider "b = []" | b' where "b = b' @ '' ''" "int (length b') \<le> n"
    | s where "s \<in> F" "b = s @ ''. ''" "n \<le> int (length s)"
    unfolding buffer_ok_def by blast
  then show ?thesis
  proof cases
    case 1
    then show ?thesis by (simp add: chunk_ok_def strip_Nil)
  next
    case 2
    then show ?thesis using length_strip_space [of b'] by (simp add: chunk_ok_def)
  next
    case 3
    then show ?thesis unfolding chunk_ok_def by blast
  qed
qed

lemma buffer_ok_extend:
  assumes "int (length b) + int (length s) < n"
  shows "buffer_ok n F (b @ s @ ''. '')"
proof -
  have "b @ s @ ''. '' = (b @ s @ ''.'') @ '' ''" by simp
  moreover have "int (length (b @ s @ ''.'')) \<le> n" using assms by simp
  ultimately show ?thesis unfolding buffer_ok_def by blast
qed

lemma buffer_ok_start:
  assumes "s \<in> F"
  shows "buffer_ok n F (s @ ''. '')"
proof (cases "n \<le> int (length s)")
  case True
  with assms show ?thesis unfolding buffer_ok_def by blast
next
  case False
  have "s @ ''. '' = (s @ ''.'') @ '' ''" by simp
  moreover have "int (length (s @ ''.'')) \<le> n" using False by simp
  ultimately show ?thesis unfolding buffer_ok_def by blast
qed

lemma split_loop_ok:
  "set ss \<subseteq> F \<Longrightarrow> \<forall>c\<in>set chunks. chunk_ok n F c \<Longrightarrow> buffer_ok n F b \<Longrightarrow>
   split_loop n chunks b ss = (chunks', b') \<Longrightarrow>
   (\<forall>c\<in>set chunks'. chunk_ok n F c) \<and> buffer_ok n F b'"
proof (induction ss arbitrary: chunks b)
  case Nil
  then show ?case by simp
next
  case (Cons s ss)
  show ?case
  proof (cases "int (length b) + int (length s) < n")
    case True
    with Cons.prems have r: "split_loop n chunks (b @ s @ ''. '') ss = (chunks', b')"
      by simp
    show ?thesis
      using Cons.IH [OF _ Cons.prems(2) buffer_ok_extend [OF True] r] Cons.prems(1) by simp
  next
    case False
    with Cons.prems have r: "split_loop n (chunks @ [strip b]) (s @ ''. '') ss = (chunks', b')"
      by simp
    have c: "\<forall>c\<in>set (chunks @ [strip b]). chunk_ok n F c"
      using Cons.prems(2) buffer_ok_strip [OF Cons.prems(3)] by simp
    have "s \<in> F" using Cons.prems(1) by simp
    then show ?thesis
      using Cons.IH [OF _ c buffer_ok_start r] Cons.prems(1) by simp
  qed
qed

lemma split_text_chunk_ok:
  assumes "c \<in> set (split_text t n)"
  shows "chunk_ok n (set (split_sep t)) c"
proof -
  obtain chunks b where r: "split_loop n [] [] (split_sep t) = (chunks, b)"
    by (cases "split_loop n [] [] (split_sep t)")
  have "buffer_ok n (set (split_sep t)) []" by (simp add: buffer_ok_def)
  from split_loop_ok [OF subset_refl _ this r]
  have ok: "\<forall>c\<in>set chunks. chunk_ok n (set (split_sep t)) c"
    and b: "buffer_ok n (set (split_sep t)) b"
    by simp_all
  from assms r have "c \<in> set chunks \<or> c = strip b"
    by (auto simp: split_text_def split: if_splits)
  then show ?thesis using ok buffer_ok_strip [OF b] by auto
qed

section \<open>Decimal strings, the wait loop and the embedding loop: lemmas\<close>

lemma digit_char_inj: "a < 10 \<Longrightarrow> b < 10 \<Longrightarrow> digit_char a = digit_char b \<Longrightarrow> a = b"
proof -
  assume a: "a < 10" and b: "b < 10" and e: "digit_char a = digit_char b"
  from e have "(of_char (char_of (48 + a)) :: nat) = of_char (char_of (48 + b))"
    by (simp add: digit_char_def)
  then have "(48 + a) mod 256 = (48 + b) mod 256"
    by (simp only: of_char_of)
  with a b show ?thesis by simp
qed

lemma str_nat_not_Nil: "str_nat n \<noteq> []"
  by (subst str_nat.simps) simp

lemma str_nat_inj: "str_nat m = str_nat n \<Longrightarrow> m = n"
proof (induction m arbitrary: n rule: str_nat.induct)
  case (1 m)
  show ?case
  proof (cases "m < 10")
    case True
    show ?thesis
    proof (cases "n < 10")
      case n: True
      from "1.prems" True n have "digit_char m = digit_char n"
        by (simp add: str_nat.simps [of m] str_nat.simps [of n])
      then show ?thesis using True n by (rule digit_char_inj [rotated 2])
    next
      case n: False
      from "1.prems" True n have "[digit_char m] = str_nat (n div 10) @ [digit_char (n mod 10)]"
        by (simp add: str_nat.simps [of m] str_nat.simps [of n])
      then have "str_nat (n div 10) = []" by simp
      then show ?thesis using str_nat_not_Nil by blast
    qed
  next
    case False
    show ?thesis
    proof (cases "n < 10")
      case n: True
      from "1.prems" False n have "str_nat (m div 10) @ [digit_char (m mod 10)] = [digit_char n]"
        by (simp add: str_nat.simps [of m] str_nat.simps [of n])
      then have "str_nat (m div 10) = []" by simp
      then show ?thesis using str_nat_not_Nil by blast
    next
      case n: False
      from "1.prems" False n
      have "str_nat (m div 10) @ [digit_char (m mod 10)] = str_nat (n div 10) @ [digit_char (n mod 10)]"
        by (simp add: str_nat.simps [of m] str_nat.simps [of n])
      then have e: "str_nat (m div 10) = str_nat (n div 10)"
        and d: "digit_char (m mod 10) = digit_char (n mod 10)" by simp_all
      from "1.IH" [OF False e] have "m div 10 = n div 10" .
      moreover from d have "m mod 10 = n mod 10" by (rule digit_char_inj [rotated 2]) simp_all
      ultimately show ?thesis by (metis div_mult_mod_eq)
    qed
  qed
qed

lemma wait_ready_Some: "ready k \<Longrightarrow> i \<le> k \<Longrightarrow> \<exists>j. wait_ready ready i = Some j"
proof (induction "k - i" arbitrary: i)
  case 0
  then have "i = k" by simp
  with "0.prems" show ?case by (subst wait_ready.simps) simp
next
  case (Suc d)
  then have "d = k - Suc i" and "Suc i \<le> k" by simp_all
  from Suc.hyps(1) [OF this(1) Suc.prems(1) this(2)]
  obtain j where "wait_ready ready (Suc i) = Some j" by blast
  then show ?case by (subst wait_ready.simps) simp
qed

lemma log_call_calls: "calls (log_call c w) = calls w @ [c]"
  by (simp add: log_call_def)

lemma log_call_append: "(log_call c w)\<lparr>calls := calls (log_call c w) @ cs\<rparr> = w\<lparr>calls := calls w @ c # cs\<rparr>"
  by (simp add: log_call_def)

lemma slice_take: "slice xs i (min (i + b) (length xs)) = take b (drop i xs)"
  by (simp add: slice_def min_def)

lemma embed_loop_batches:
  "0 < b \<Longrightarrow>
   \<exists>bs. embed_loop p chunks b i embeddings w =
          (embeddings @ concat (map (\<lambda>t. co_embed p t search_document) bs),
           w\<lparr>calls := calls w @ map (\<lambda>t. Embed t search_document) bs\<rparr>) \<and>
        concat bs = drop i chunks \<and> (\<forall>t\<in>set bs. length t \<le> b \<and> t \<noteq> [])"
proof (induction p chunks b i embeddings w rule: embed_loop.induct)
  case (1 p chunks b i embeddings w)
  show ?case
  proof (cases "length chunks \<le> i")
    case True
    then have "embed_loop p chunks b i embeddings w = (embeddings, w)"
      by (subst embed_loop.simps) simp
    then show ?thesis using True by (intro exI [of _ "[]"]) simp
  next
    case False
    let ?batch = "take b (drop i chunks)"
    let ?e = "embeddings @ co_embed p ?batch search_document"
    let ?w = "log_call (Embed ?batch search_document) w"
    from False "1.prems" have n: "\<not> (b = 0 \<or> length chunks \<le> i)" by simp
    from "1.IH" [OF n "1.prems"] obtain bs where
      r: "embed_loop p chunks b (i + b) ?e ?w =
            (?e @ concat (map (\<lambda>t. co_embed p t search_document) bs),
             ?w\<lparr>calls := calls ?w @ map (\<lambda>t. Embed t search_document) bs\<rparr>)"
      and c: "concat bs = drop (i + b) chunks"
      and l: "\<forall>t\<in>set bs. length t \<le> b \<and> t \<noteq> []"
      by (auto simp: slice_take)
    have "embed_loop p chunks b i embeddings w = embed_loop p chunks b (i + b) ?e ?w"
      using n by (subst embed_loop.simps) (simp add: slice_take)
    with r have "embed_loop p chunks b i embeddings w =
        (embeddings @ concat (map (\<lambda>t. co_embed p t search_document) (?batch # bs)),
         w\<lparr>calls := calls w @ map (\<lambda>t. Embed t search_document) (?batch # bs)\<rparr>)"
      by (simp add: log_call_append)
    moreover have "concat (?batch # bs) = drop i chunks"
      using c by (simp add: add.commute [of i b] flip: drop_drop)
    moreover have "\<forall>t\<in>set (?batch # bs). length t \<le> b \<and> t \<noteq> []"
      using l False "1.prems" by simp
    ultimately show ?thesis by blast
  qed
qed

section \<open>The upsert loop and the contents of the index: lemmas\<close>

lemma slice_take100: "slice xs i (i + 100) = take 100 (drop i xs)"
  by (simp add: slice_def)

lemma index_upsert_append:
  "(index_upsert h b w)\<lparr>pc_data := (pc_data (index_upsert h b w))(h := m),
       calls := calls (index_upsert h b w) @ cs\<rparr> =
   w\<lparr>pc_data := (pc_data w)(h := m), calls := calls w @ Upsert h b # cs\<rparr>"
  by (simp add: index_upsert_def log_call_def)

lemma index_upsert_data: "pc_data (index_upsert h b w) h = fold upsert_vec b (pc_data w h)"
  by (simp add: index_upsert_def log_call_def)

lemma upsert_loop_batches:
  "\<exists>bs. upsert_loop h vectors i w =
          w\<lparr>pc_data := (pc_data w)(h := fold upsert_vec (drop i vectors) (pc_data w h)),
            calls := calls w @ map (Upsert h) bs\<rparr> \<and>
        concat bs = drop i vectors \<and> (\<forall>b\<in>set bs. length b \<le> 100 \<and> b \<noteq> [])"
proof (induction h vectors i w rule: upsert_loop.induct)
  case (1 h vectors i w)
  show ?case
  proof (cases "length vectors \<le> i")
    case True
    then have "upsert_loop h vectors i w = w"
      by (subst upsert_loop.simps) simp
    then show ?thesis using True by (intro exI [of _ "[]"]) simp
  next
    case False
    let ?batch = "take 100 (drop i vectors)"
    let ?w = "index_upsert h ?batch w"
    from "1.IH" [OF False] obtain bs where
      r: "upsert_loop h vectors (i + 100) ?w =
            ?w\<lparr>pc_data := (pc_data ?w)(h := fold upsert_vec (drop (i + 100) vectors) (pc_data ?w h)),
               calls := calls ?w @ map (Upsert h) bs\<rparr>"
      and c: "concat bs = drop (i + 100) vectors"
      and l: "\<forall>b\<in>set bs. length b \<le> 100 \<and> b \<noteq> []"
      unfolding slice_take100 by blast
    have d: "?batch @ drop (i + 100) vectors = drop i vectors"
      by (simp add: add.commute [of i 100] flip: drop_drop)
    have "fold upsert_vec (?batch @ drop (i + 100) vectors) (pc_data w h) =
          fold upsert_vec (drop (i + 100) vectors) (pc_data ?w h)"
      by (simp add: index_upsert_data)
    then have "fold upsert_vec (drop (i + 100) vectors) (pc_data ?w h) =
          fold upsert_vec (drop i vectors) (pc_data w h)"
      by (simp only: d)
    moreover have "upsert_loop h vectors i w = upsert_loop h vectors (i + 100) ?w"
      using False by (subst upsert_loop.simps) (simp add: slice_take100)
    ultimately have "upsert_loop h vectors i w =
        w\<lparr>pc_data := (pc_data w)(h := fold upsert_vec (drop i vectors) (pc_data w h)),
          calls := calls w @ map (Upsert h) (?batch # bs)\<rparr>"
      using r by (simp add: index_upsert_append)
    moreover have "concat (?batch # bs) = drop i vectors"
      using c d by simp
    moreover have "\<forall>b\<in>set (?batch # bs). length b \<le> 100 \<and> b \<noteq> []"
      using l False by simp
    ultimately show ?thesis by blast
  qed
qed

lemma fold_upsert_other: "k \<notin> vec_id ` set xs \<Longrightarrow> fold upsert_vec xs m k = m k"
proof (induction xs arbitrary: m)
  case Nil
  show ?case by simp
next
  case (Cons x xs)
  then have "fold upsert_vec xs (upsert_vec x m) k = upsert_vec x m k" by simp
  moreover have "upsert_vec x m k = m k"
    using Cons.prems by (simp add: upsert_vec_def)
  ultimately show ?case by simp
qed

lemma dom_upsert_vec: "dom (upsert_vec v m) = insert (vec_id v) (dom m)"
  by (simp add: upsert_vec_def)

lemma fold_upsert_dom: "dom (fold upsert_vec xs m) = dom m \<union> vec_id ` set xs"
  by (induction xs arbitrary: m) (simp_all add: dom_upsert_vec)

lemma fold_upsert_lookup:
  "distinct (map vec_id xs) \<Longrightarrow> v \<in> set xs \<Longrightarrow>
   fold upsert_vec xs m (vec_id v) = Some (vec_values v, vec_metadata v)"
proof (induction xs arbitrary: m)
  case Nil
  then show ?case by simp
next
  case (Cons x xs)
  show ?case
  proof (cases "v = x")
    case True
    from Cons.prems(1) have "vec_id x \<notin> vec_id ` set xs" by simp
    then have "fold upsert_vec xs (upsert_vec x m) (vec_id x) = upsert_vec x m (vec_id x)"
      by (rule fold_upsert_other)
    moreover have "upsert_vec x m (vec_id x) = Some (vec_values x, vec_metadata x)"
      by (simp add: upsert_vec_def)
    ultimately show ?thesis using True by simp
  next
    case False
    with Cons.prems have "v \<in> set xs" and "distinct (map vec_id xs)" by simp_all
    from Cons.IH [OF this(2) this(1)] show ?thesis by simp
  qed
qed

lemma vectors_to_upsert_eq:
  assumes "length embeddings = length chunks"
  shows "vectors_to_upsert chunks embeddings =
     map (\<lambda>i. \<lparr>vec_id = str_nat i, vec_values = embeddings ! i, vec_metadata = [(''text'', chunks ! i)]\<rparr>)
         [0..<length chunks]"
  using assms by (intro nth_equalityI) (simp_all add: vectors_to_upsert_def nth_enumerate_eq)

lemma inj_str_nat: "inj_on str_nat A"
  by (rule inj_onI) (rule str_nat_inj)

lemma vectors_to_upsert_ids:
  assumes "length embeddings = length chunks"
  shows "map vec_id (vectors_to_upsert chunks embeddings) = map str_nat [0..<length chunks]"
  by (simp add: vectors_to_upsert_eq [OF assms] comp_def)

lemma vectors_to_upsert_distinct:
  assumes "length embeddings = length chunks"
  shows "distinct (map vec_id (vectors_to_upsert chunks embeddings))"
  by (simp add: vectors_to_upsert_ids [OF assms] distinct_map inj_str_nat)

lemma ensure_index_Some:
  assumes "index_name vs \<in> set (pc_indexes w) \<or> (\<exists>k. index_ready p k)"
  shows "\<exists>w1 pre. ensure_index p vs w = Some w1 \<and> calls w1 = calls w @ pre \<and>
           (\<forall>c\<in>set pre. c = ListIndexes \<or> c = CreateIndex (index_name vs) (dimension vs)
               \<or> c = DescribeIndex (index_name vs))"
proof (cases "index_name vs \<in> set (pc_indexes w)")
  case True
  then show ?thesis by (simp add: ensure_index_def log_call_def)
next
  case False
  with assms obtain k where "index_ready p k" by blast
  then obtain j where "wait_ready (index_ready p) 0 = Some j"
    using wait_ready_Some [of "index_ready p" k 0] by auto
  with False show ?thesis by (simp add: ensure_index_def)
qed

section \<open>Retrieval: lemmas\<close>

lemma docs_texts_Nil: "docs_texts ms = Inr [] \<Longrightarrow> ms = []"
  by (cases ms) (auto split: option.splits sum.splits)

lemma docs_texts_have_text:
  "docs_texts ms = Inr ts \<Longrightarrow> \<forall>m\<in>set ms. map_of m ''text'' \<noteq> None"
  by (induction ms arbitrary: ts) (auto split: option.splits sum.splits)

lemma reranked_docs_subset:
  "reranked_docs matches acc results = Inr docs \<Longrightarrow> set docs \<subseteq> set acc \<union> set matches"
proof (induction results arbitrary: acc)
  case Nil
  then show ?case by auto
next
  case (Cons i results)
  from Cons.prems have i: "i < length matches"
    and r: "reranked_docs matches (acc @ [matches ! i]) results = Inr docs"
    by (simp_all split: if_splits)
  from Cons.IH [OF r] i show ?case by auto
qed

lemma retrieve_have_text:
  assumes "retrieve p vs w query = Inr (docs, w')"
  shows "\<forall>d\<in>set docs. map_of d ''text'' \<noteq> None"
proof (cases "index vs")
  case None
  with assms show ?thesis by (simp add: retrieve_def)
next
  case (Some h)
  show ?thesis
  proof (cases "co_embed p [query] search_query")
    case Nil
    with assms Some show ?thesis by (simp add: retrieve_def)
  next
    case (Cons e es)
    let ?matches = "index_query p (pc_data (log_call (Embed [query] search_query) w) h) e (retrieve_top_k vs)"
    show ?thesis
    proof (cases "docs_texts ?matches")
      case (Inl err)
      with assms Some Cons show ?thesis by (simp add: retrieve_def Let_def)
    next
      case (Inr ts)
      show ?thesis
      proof (cases "ts = []")
        case True
        with assms Some Cons Inr show ?thesis by (simp add: retrieve_def Let_def)
      next
        case False
        with assms Some Cons Inr
        have "reranked_docs ?matches [] (co_rerank p query ts (rerank_top_k vs)) = Inr docs"
          by (simp add: retrieve_def Let_def split: sum.splits)
        from reranked_docs_subset [OF this] docs_texts_have_text [OF Inr]
        show ?thesis by auto
      qed
    qed
  qed
qed

section \<open>The de-duplication loop: lemmas\<close>

lemma remdups_snoc: "remdups (xs @ [x]) = filter (\<lambda>y. y \<noteq> x) (remdups xs) @ [x]"
  by (induction xs) auto

lemma first_seen_Nil: "first_seen [] = []"
  by (simp add: first_seen_def)

lemma first_seen_Cons: "first_seen (x # xs) = x # filter (\<lambda>y. y \<noteq> x) (first_seen xs)"
  by (simp add: first_seen_def remdups_snoc rev_filter)

lemma dedup_inv_first:
  "dedup_inv u docs r \<Longrightarrow> (t, d) \<in> set r \<Longrightarrow>
   (t, d) \<in> set u \<or>
   (t \<notin> set (map fst u) \<and> find (\<lambda>e. map_of e ''text'' = Some t) docs = Some d)"
  unfolding dedup_inv_def by blast

lemma find_text_Cons:
  "map_of d ''text'' = Some t \<Longrightarrow> t \<noteq> t' \<Longrightarrow>
   find (\<lambda>e. map_of e ''text'' = Some t') (d # ds) = find (\<lambda>e. map_of e ''text'' = Some t') ds"
  by simp

lemma dedup_loop_inv:
  "\<forall>d\<in>set docs. map_of d ''text'' \<noteq> None \<Longrightarrow>
   \<forall>(t, d)\<in>set u. map_of d ''text'' = Some t \<Longrightarrow>
   \<exists>r. dedup_loop u docs = Inr r \<and> dedup_inv u docs r"
proof (induction docs arbitrary: u)
  case Nil
  then show ?case by (simp add: dedup_inv_def first_seen_Nil)
next
  case (Cons d ds)
  from Cons.prems(1) obtain t where t: "map_of d ''text'' = Some t" by auto
  let ?K = "\<lambda>u. set (map (\<lambda>(t, d). Some t) (u :: (string \<times> metadata) list))"
  let ?R = "first_seen (map (\<lambda>d. map_of d ''text'') ds)"
  have K: "\<And>u k. (Some k \<in> ?K u) = (k \<in> set (map fst u))" by force
  from Cons.prems(1) have ds: "\<forall>d\<in>set ds. map_of d ''text'' \<noteq> None" by simp
  show ?case
  proof (cases "t \<in> set (map fst u)")
    case True
    from Cons.IH [OF ds Cons.prems(2)] obtain r where
      r: "dedup_loop u ds = Inr r" and i: "dedup_inv u ds r" by blast
    have l: "dedup_loop u (d # ds) = Inr r" using t True r by simp
    have f: "filter (\<lambda>k. k \<notin> ?K u) (filter (\<lambda>y. y \<noteq> Some t) ?R) = filter (\<lambda>k. k \<notin> ?K u) ?R"
      using True K [of t u] by (auto intro: filter_cong)
    have "dedup_inv u (d # ds) r"
      unfolding dedup_inv_def
    proof (intro conjI)
      show "\<forall>(t, d)\<in>set r. map_of d ''text'' = Some t"
        using i by (simp add: dedup_inv_def)
      show "map (\<lambda>(t, d). Some t) r = map (\<lambda>(t, d). Some t) u @
          filter (\<lambda>k. k \<notin> ?K u) (first_seen (map (\<lambda>d. map_of d ''text'') (d # ds)))"
        using i True K [of t u] f
        by (simp add: dedup_inv_def first_seen_Cons t del: set_map)
      show "\<forall>t' d'. (t', d') \<in> set r \<longrightarrow> (t', d') \<in> set u \<or>
          (t' \<notin> set (map fst u) \<and> find (\<lambda>e. map_of e ''text'' = Some t') (d # ds) = Some d')"
      proof (intro allI impI)
        fix t' d' assume m: "(t', d') \<in> set r"
        show "(t', d') \<in> set u \<or>
          (t' \<notin> set (map fst u) \<and> find (\<lambda>e. map_of e ''text'' = Some t') (d # ds) = Some d')"
        proof (cases "(t', d') \<in> set u")
          case True
          then show ?thesis by blast
        next
          case n: False
          from dedup_inv_first [OF i m] n
          have a: "t' \<notin> set (map fst u)"
            and b: "find (\<lambda>e. map_of e ''text'' = Some t') ds = Some d'" by blast+
          from a True have "t \<noteq> t'" by blast
          from find_text_Cons [OF t this] a b show ?thesis by simp
        qed
      qed
    qed
    with l show ?thesis by blast
  next
    case False
    let ?u = "u @ [(t, d)]"
    have u': "\<forall>(t, d)\<in>set ?u. map_of d ''text'' = Some t"
      using Cons.prems(2) t by simp
    from Cons.IH [OF ds u'] obtain r where
      r: "dedup_loop ?u ds = Inr r" and i: "dedup_inv ?u ds r" by blast
    have l: "dedup_loop u (d # ds) = Inr r" using t False r by simp
    have f: "filter (\<lambda>k. k \<notin> ?K ?u) ?R = filter (\<lambda>k. k \<notin> ?K u) (filter (\<lambda>y. y \<noteq> Some t) ?R)"
      by (auto intro: filter_cong)
    have "dedup_inv u (d # ds) r"
      unfolding dedup_inv_def
    proof (intro conjI)
      show "\<forall>(t, d)\<in>set r. map_of d ''text'' = Some t"
        using i by (simp add: dedup_inv_def)
      show "map (\<lambda>(t, d). Some t) r = map (\<lambda>(t, d). Some t) u @
          filter (\<lambda>k. k \<notin> ?K u) (first_seen (map (\<lambda>d. map_of d ''text'') (d # ds)))"
        using i False K [of t u] f
        by (simp add: dedup_inv_def first_seen_Cons t del: set_map)
      show "\<forall>t' d'. (t', d') \<in> set r \<longrightarrow> (t', d') \<in> set u \<or>
          (t' \<notin> set (map fst u) \<and> find (\<lambda>e. map_of e ''text'' = Some t') (d # ds) = Some d')"
      proof (intro allI impI)
        fix t' d' assume m: "(t', d') \<in> set r"
        show "(t', d') \<in> set u \<or>
          (t' \<notin> set (map fst u) \<and> find (\<lambda>e. map_of e ''text'' = Some t') (d # ds) = Some d')"
        proof (cases "(t', d') \<in> set u")
          case True
          then show ?thesis by blast
        next
          case n: False
          show ?thesis
          proof (cases "(t', d') = (t, d)")
            case True
            with False t show ?thesis by simp
          next
            case o: False
            with n have "(t', d') \<notin> set ?u" by simp
            with dedup_inv_first [OF i m]
            have a: "t' \<notin> set (map fst ?u)"
              and b: "find (\<lambda>e. map_of e ''text'' = Some t') ds = Some d'" by blast+
            from a have "t \<noteq> t'" by auto
            from find_text_Cons [OF t this] a b show ?thesis by simp
          qed
        qed
      qed
    qed
    with l show ?thesis by blast
  qed
qed

lemma retrieve_all_single:
  "retrieve p vs w q = Inr (docs, w1) \<Longrightarrow> retrieve_all p vs w [] [q] = Inr (docs, w1)"
  by simp

section \<open>Ingestion: lemmas\<close>



lemma str_nat_0: "str_nat 0 = ''0''"
  by code_simp

lemma index_chunks_spec:
  assumes "length embeddings = length chunks"
    and "index_name vs \<in> set (pc_indexes w) \<or> (\<exists>k. index_ready p k)"
  shows "\<exists>vs' w' pre bs.
     index_chunks p vs w chunks embeddings = Some (vs', w') \<and>
     index vs' = Some (index_name vs) \<and>
     calls w' = calls w @ pre @ DeleteAll (index_name vs) # map (Upsert (index_name vs)) bs
                  @ [DescribeIndexStats (index_name vs)] \<and>
     (\<forall>c\<in>set pre. c = ListIndexes \<or> c = CreateIndex (index_name vs) (dimension vs)
                   \<or> c = DescribeIndex (index_name vs)) \<and>
     concat bs = map (\<lambda>i. \<lparr>vec_id = str_nat i, vec_values = embeddings ! i,
                            vec_metadata = [(''text'', chunks ! i)]\<rparr>) [0..<length chunks] \<and>
     (\<forall>b\<in>set bs. length b \<le> 100) \<and>
     dom (pc_data w' (index_name vs)) = str_nat ` {..<length chunks} \<and>
     card (dom (pc_data w' (index_name vs))) = length chunks \<and>
     (\<forall>i<length chunks.
        pc_data w' (index_name vs) (str_nat i) = Some (embeddings ! i, [(''text'', chunks ! i)]))"
proof -
  let ?h = "index_name vs"
  let ?vecs = "vectors_to_upsert chunks embeddings"
  let ?entry = "\<lambda>i. \<lparr>vec_id = str_nat i, vec_values = embeddings ! i,
                       vec_metadata = [(''text'', chunks ! i)]\<rparr>"
  from ensure_index_Some [OF assms(2)] obtain w1 pre where
    e: "ensure_index p vs w = Some w1" and c1: "calls w1 = calls w @ pre"
    and pre: "\<forall>c\<in>set pre. c = ListIndexes \<or> c = CreateIndex ?h (dimension vs)
                 \<or> c = DescribeIndex ?h"
    by blast
  let ?w2 = "index_delete_all ?h w1"
  obtain bs where
    u: "upsert_loop ?h ?vecs 0 ?w2 =
          ?w2\<lparr>pc_data := (pc_data ?w2)(?h := fold upsert_vec (drop 0 ?vecs) (pc_data ?w2 ?h)),
              calls := calls ?w2 @ map (Upsert ?h) bs\<rparr>"
    and cb: "concat bs = drop 0 ?vecs"
    and lb: "\<forall>b\<in>set bs. length b \<le> 100 \<and> b \<noteq> []"
    using upsert_loop_batches [of ?h ?vecs 0 ?w2] by blast
  let ?w3 = "upsert_loop ?h ?vecs 0 ?w2"
  let ?w' = "log_call (DescribeIndexStats ?h) ?w3"
  have r: "index_chunks p vs w chunks embeddings = Some (vs\<lparr>index := Some ?h\<rparr>, ?w')"
    by (simp add: index_chunks_def e)
  have d2: "pc_data ?w2 ?h = Map.empty" and c2: "calls ?w2 = calls w1 @ [DeleteAll ?h]"
    by (simp_all add: index_delete_all_def log_call_def)
  have d3: "pc_data ?w3 ?h = fold upsert_vec ?vecs (pc_data ?w2 ?h)"
    and c3: "calls ?w3 = calls ?w2 @ map (Upsert ?h) bs"
    by (subst u, simp)+
  have d: "pc_data ?w' ?h = fold upsert_vec ?vecs Map.empty"
    using d2 d3 by (simp add: log_call_def)
  have cs: "calls ?w' = calls w @ pre @ DeleteAll ?h # map (Upsert ?h) bs @ [DescribeIndexStats ?h]"
    using c1 c2 c3 by (simp add: log_call_def)
  have v: "?vecs = map ?entry [0..<length chunks]"
    by (rule vectors_to_upsert_eq [OF assms(1)])
  have ids: "vec_id ` set ?vecs = str_nat ` {..<length chunks}"
    using vectors_to_upsert_ids [OF assms(1)]
    by (metis atLeast_upt list.set_map)
  have dom: "dom (pc_data ?w' ?h) = str_nat ` {..<length chunks}"
    by (simp add: d fold_upsert_dom ids)
  have card: "card (dom (pc_data ?w' ?h)) = length chunks"
    by (simp add: dom card_image inj_str_nat)
  have look: "\<forall>i<length chunks. pc_data ?w' ?h (str_nat i) = Some (embeddings ! i, [(''text'', chunks ! i)])"
  proof (intro allI impI)
    fix i assume i: "i < length chunks"
    then have "?entry i \<in> set ?vecs" by (simp add: v)
    from fold_upsert_lookup [OF vectors_to_upsert_distinct [OF assms(1)] this, of Map.empty]
    show "pc_data ?w' ?h (str_nat i) = Some (embeddings ! i, [(''text'', chunks ! i)])"
      by (simp add: d)
  qed
  have "index (vs\<lparr>index := Some ?h\<rparr>) = Some ?h" by simp
  moreover have "concat bs = map ?entry [0..<length chunks]" using cb v by simp
  moreover have "\<forall>b\<in>set bs. length b \<le> 100" using lb by simp
  ultimately show ?thesis using r cs pre dom card look by blast
qed


section \<open>The claims about the chunker\<close>

text \<open>
  C1. On \<open>"The sky is blue. Grass is green. Water is wet."\<close> with chunk size 20 the
  chunker returns three chunks, and the last one is \<open>"Water is wet.."\<close>: the delimiter
  is appended to the last fragment too, which already ends the text.
\<close>

theorem split_text_scenario_1:
  "split_text ''The sky is blue. Grass is green. Water is wet.'' 20 =
     [''The sky is blue.'', ''Grass is green.'', ''Water is wet..'']"
  by (simp add: split_text_def strip_def isspace_def)

text \<open>
  C4, as stated: every chunk is within the chunk size unless it is one fragment longer
  than the chunk size. It fails for a fragment of exactly the chunk size: \<open>"abc"\<close> with
  chunk size 3 gives the chunk \<open>"abc."\<close> of length 4. It also fails for the empty
  leading chunk when the chunk size is negative.
\<close>

theorem split_text_bound_counterexample:
  "\<not> (\<forall>c\<in>set (split_text ''abc'' 3).
        int (length c) \<le> 3 \<or>
        (\<exists>s\<in>set (split_sep ''abc''). c = strip (s @ ''. '') \<and> 3 < int (length s))) \<and>
   \<not> (\<forall>c\<in>set (split_text ''a'' (- 1)).
        int (length c) \<le> - 1 \<or>
        (\<exists>s\<in>set (split_sep ''a''). c = strip (s @ ''. '') \<and> - 1 < int (length s)))"
  by (simp add: split_text_def strip_def isspace_def)

text \<open>
  C4, amended: every non-empty chunk is within the chunk size unless it is one fragment
  of length at least the chunk size, with its delimiter, stripped. An empty chunk is
  within every chunk size that is not negative.
\<close>

theorem split_text_chunk_bound:
  "c \<in> set (split_text t chunk_size) \<Longrightarrow> c \<noteq> [] \<Longrightarrow>
   int (length c) \<le> chunk_size \<or>
   (\<exists>s\<in>set (split_sep t). c = strip (s @ ''. '') \<and> chunk_size \<le> int (length s))"
  using split_text_chunk_ok [of c t chunk_size] by (simp add: chunk_ok_def)

theorem split_text_chunk_bound_witness:
  "''abc.'' \<in> set (split_text ''abc'' 3) \<and> ''abc.'' \<noteq> [] \<and>
   (int (length ''abc.'') \<le> 3 \<or>
    (\<exists>s\<in>set (split_sep ''abc''). ''abc.'' = strip (s @ ''. '') \<and> 3 \<le> int (length s)))"
proof -
  have h: "''abc.'' \<in> set (split_text ''abc'' 3)"
    by (simp add: split_text_def strip_def isspace_def)
  have n: "''abc.'' \<noteq> []" by simp
  from split_text_chunk_bound [OF h n] h n show ?thesis by blast
qed

section \<open>The claims about embedding and indexing\<close>

text \<open>
  C8. When the embedding provider maps each text on its own, embedding the chunks with
  the batch size 90 sends requests of at most 90 texts each that together are the
  chunks in order, and returns one vector per chunk in the order of the chunks: the
  vectors of a single request for all the chunks.
\<close>

theorem embed_chunks_batching:
  assumes "\<forall>texts. co_embed p texts search_document = map f texts"
  shows "\<exists>bs.
     embed_chunks p w chunks 90 =
       Inr (map f chunks, w\<lparr>calls := calls w @ map (\<lambda>t. Embed t search_document) bs\<rparr>) \<and>
     concat bs = chunks \<and> (\<forall>t\<in>set bs. length t \<le> 90) \<and>
     map f chunks = co_embed p chunks search_document"
proof -
  obtain bs where
    r: "embed_loop p chunks 90 0 [] w =
          ([] @ concat (map (\<lambda>t. co_embed p t search_document) bs),
           w\<lparr>calls := calls w @ map (\<lambda>t. Embed t search_document) bs\<rparr>)"
    and c: "concat bs = drop 0 chunks"
    and l: "\<forall>t\<in>set bs. length t \<le> 90 \<and> t \<noteq> []"
    using embed_loop_batches [of 90 p chunks 0 "[]" w] by auto
  have "concat (map (\<lambda>t. co_embed p t search_document) bs) = concat (map (map f) bs)"
    using assms by simp
  also have "\<dots> = map f (concat bs)" by (simp add: map_concat)
  finally have "concat (map (\<lambda>t. co_embed p t search_document) bs) = map f chunks"
    using c by simp
  with r have "embed_chunks p w chunks 90 =
       Inr (map f chunks, w\<lparr>calls := calls w @ map (\<lambda>t. Embed t search_document) bs\<rparr>)"
    by (simp add: embed_chunks_def)
  moreover have "concat bs = chunks" using c by simp
  moreover have "\<forall>t\<in>set bs. length t \<le> 90" using l by simp
  moreover have "map f chunks = co_embed p chunks search_document" using assms by simp
  ultimately show ?thesis by blast
qed

theorem embed_chunks_batching_witness:
  "(\<forall>texts. co_embed demo_providers texts search_document = map (\<lambda>s. [real (length s)]) texts) \<and>
   (\<exists>bs. embed_chunks demo_providers demo_world [''a'', ''bc''] 90 =
            Inr ([[1], [2]],
                 demo_world\<lparr>calls := calls demo_world @ map (\<lambda>t. Embed t search_document) bs\<rparr>) \<and>
          concat bs = [''a'', ''bc''])"
proof -
  have h: "\<forall>texts. co_embed demo_providers texts search_document = map (\<lambda>s. [real (length s)]) texts"
    by (simp add: demo_providers_def)
  from embed_chunks_batching [OF h, of demo_world "[''a'', ''bc'']"] obtain bs where
    "embed_chunks demo_providers demo_world [''a'', ''bc''] 90 =
       Inr (map (\<lambda>s. [real (length s)]) [''a'', ''bc''],
            demo_world\<lparr>calls := calls demo_world @ map (\<lambda>t. Embed t search_document) bs\<rparr>)"
    and "concat bs = [''a'', ''bc'']"
    by blast
  then show ?thesis using h by auto
qed

text \<open>
  C6. With one embedding per chunk, indexing \<open>n\<close> chunks returns once the index exists
  or becomes ready. After the requests that make sure the index exists, it sends one
  delete-all and then upserts whose batches, of at most 100 entries each, make up the
  \<open>n\<close> entries with ids \<open>"0"\<close> to \<open>"n-1"\<close>, the embeddings and the payload
  \<open>{text: chunk}\<close>. Whatever the index held before, it then holds exactly these \<open>n\<close>
  entries.
\<close>

theorem index_chunks_replaces:
  assumes "length embeddings = length chunks"
    and "index_name vs \<in> set (pc_indexes w) \<or> (\<exists>k. index_ready p k)"
  shows "\<exists>vs' w' pre bs.
     index_chunks p vs w chunks embeddings = Some (vs', w') \<and>
     index vs' = Some (index_name vs) \<and>
     calls w' = calls w @ pre @ DeleteAll (index_name vs) # map (Upsert (index_name vs)) bs
                  @ [DescribeIndexStats (index_name vs)] \<and>
     (\<forall>c\<in>set pre. c = ListIndexes \<or> c = CreateIndex (index_name vs) (dimension vs)
                   \<or> c = DescribeIndex (index_name vs)) \<and>
     concat bs = map (\<lambda>i. \<lparr>vec_id = str_nat i, vec_values = embeddings ! i,
                            vec_metadata = [(''text'', chunks ! i)]\<rparr>) [0..<length chunks] \<and>
     (\<forall>b\<in>set bs. length b \<le> 100) \<and>
     dom (pc_data w' (index_name vs)) = str_nat ` {..<length chunks} \<and>
     card (dom (pc_data w' (index_name vs))) = length chunks \<and>
     (\<forall>i<length chunks.
        pc_data w' (index_name vs) (str_nat i) = Some (embeddings ! i, [(''text'', chunks ! i)]))"
  using assms by (rule index_chunks_spec)

text \<open>
  An instance: the index holds the two chunks of an earlier document; indexing the one
  chunk of a new document leaves exactly the entry \<open>"0"\<close> of the new document.
\<close>

theorem index_chunks_replaces_witness:
  "length [[5::real]] = length [''gamma''] \<and>
   (index_name demo_store \<in>
      set (pc_indexes
        \<lparr>pc_indexes = [''rag-qa-bot''],
         pc_data = (\<lambda>name. Map.empty)
           (''rag-qa-bot'' := [''0'' \<mapsto> ([5], [(''text'', ''alpha'')]),
                               ''1'' \<mapsto> ([4], [(''text'', ''beta'')])]),
         calls = []\<rparr>) \<or>
    (\<exists>k. index_ready demo_providers k)) \<and>
   (\<exists>vs' w'.
      index_chunks demo_providers demo_store
        \<lparr>pc_indexes = [''rag-qa-bot''],
         pc_data = (\<lambda>name. Map.empty)
           (''rag-qa-bot'' := [''0'' \<mapsto> ([5], [(''text'', ''alpha'')]),
                               ''1'' \<mapsto> ([4], [(''text'', ''beta'')])]),
         calls = []\<rparr>
        [''gamma''] [[5]] = Some (vs', w') \<and>
      dom (pc_data w' ''rag-qa-bot'') = {''0''} \<and>
      pc_data w' ''rag-qa-bot'' ''0'' = Some ([5], [(''text'', ''gamma'')]))"
proof -
  let ?wA = "\<lparr>pc_indexes = [''rag-qa-bot''],
         pc_data = (\<lambda>name. Map.empty)
           (''rag-qa-bot'' := [''0'' \<mapsto> ([5::real], [(''text'', ''alpha'')]),
                               ''1'' \<mapsto> ([4], [(''text'', ''beta'')])]),
         calls = []\<rparr>"
  have h1: "length [[5::real]] = length [''gamma'']" by simp
  have h2: "index_name demo_store \<in> set (pc_indexes ?wA) \<or> (\<exists>k. index_ready demo_providers k)"
    by (simp add: demo_store_def)
  have n: "index_name demo_store = ''rag-qa-bot''" by (simp add: demo_store_def)
  have s: "str_nat 0 = ''0''" by code_simp
  from index_chunks_replaces [OF h1 h2] obtain vs' w' where
    r: "index_chunks demo_providers demo_store ?wA [''gamma''] [[5]] = Some (vs', w')"
    and d: "dom (pc_data w' (index_name demo_store)) = str_nat ` {..<length [''gamma'']}"
    and l: "\<forall>i<length [''gamma''].
        pc_data w' (index_name demo_store) (str_nat i) = Some ([[5]] ! i, [(''text'', [''gamma''] ! i)])"
    by blast
  from d have "dom (pc_data w' ''rag-qa-bot'') = {''0''}" by (simp add: n s lessThan_Suc)
  moreover from l have "pc_data w' ''rag-qa-bot'' ''0'' = Some ([5], [(''text'', ''gamma'')])"
    by (simp add: n s)
  ultimately show ?thesis using h1 h2 r by blast
qed

section \<open>The claims about retrieval and answering\<close>

text \<open>
  C5. Without an index handle \<open>retrieve\<close> returns the empty list and sends no request.
  With a handle, when the embedding provider returns a vector for the query and the
  index query has no match, it returns the empty list after the embedding request and
  the index query, and sends no rerank request.
\<close>

theorem retrieve_empty:
  "(index vs = None \<longrightarrow> retrieve p vs w query = Inr ([], w)) \<and>
   (index vs = Some h \<and> co_embed p [query] search_query = e # es \<and>
    index_query p (pc_data w h) e (retrieve_top_k vs) = [] \<longrightarrow>
    retrieve p vs w query =
      Inr ([], w\<lparr>calls := calls w @ [Embed [query] search_query, Query h e (retrieve_top_k vs)]\<rparr>))"
  by (simp add: retrieve_def log_call_def)

theorem retrieve_empty_witness:
  "index demo_store = None \<and>
   retrieve demo_providers demo_store demo_world ''why'' = Inr ([], demo_world) \<and>
   index (demo_store\<lparr>index := Some ''rag-qa-bot''\<rparr>) = Some ''rag-qa-bot'' \<and>
   co_embed demo_providers [''why''] search_query = [3] # [] \<and>
   index_query demo_providers (pc_data demo_world ''rag-qa-bot'') [3]
     (retrieve_top_k (demo_store\<lparr>index := Some ''rag-qa-bot''\<rparr>)) = [] \<and>
   retrieve demo_providers (demo_store\<lparr>index := Some ''rag-qa-bot''\<rparr>) demo_world ''why'' =
     Inr ([], demo_world\<lparr>calls := calls demo_world @
            [Embed [''why''] search_query, Query ''rag-qa-bot'' [3] 10]\<rparr>)"
proof -
  have a: "index demo_store = None" by (simp add: demo_store_def)
  have b: "index (demo_store\<lparr>index := Some ''rag-qa-bot''\<rparr>) = Some ''rag-qa-bot''" by simp
  have c: "co_embed demo_providers [''why''] search_query = [3] # []"
    by (simp add: demo_providers_def)
  have d: "index_query demo_providers (pc_data demo_world ''rag-qa-bot'') [3]
     (retrieve_top_k (demo_store\<lparr>index := Some ''rag-qa-bot''\<rparr>)) = []"
    by (simp add: demo_providers_def demo_world_def)
  have k: "retrieve_top_k (demo_store\<lparr>index := Some ''rag-qa-bot''\<rparr>) = 10"
    by (simp add: demo_store_def)
  from retrieve_empty [of demo_store demo_providers demo_world "''why''"] a
  have "retrieve demo_providers demo_store demo_world ''why'' = Inr ([], demo_world)"
    by blast
  moreover
  from retrieve_empty [of "demo_store\<lparr>index := Some ''rag-qa-bot''\<rparr>" demo_providers demo_world
      "''why''" "''rag-qa-bot''" "[3]" "[]"] b c d
  have "retrieve demo_providers (demo_store\<lparr>index := Some ''rag-qa-bot''\<rparr>) demo_world ''why'' =
     Inr ([], demo_world\<lparr>calls := calls demo_world @
            [Embed [''why''] search_query, Query ''rag-qa-bot'' [3] 10]\<rparr>)"
    by (simp only: k)
  ultimately show ?thesis using a b c d by blast
qed

text \<open>
  C7. Whatever documents the retrieval returns, \<open>respond\<close> sends the generation
  provider a list whose texts are distinct and are the texts of the retrieved documents
  in the order of their first occurrence, each entry being the first retrieved document
  with its text.
\<close>

theorem respond_deduplicates:
  assumes "retrieve p vs w user_message = Inr (docs, w1)"
  shows "\<exists>final.
     respond p vs conversation_id w user_message =
       Inr (co_chat_stream p user_message final conversation_id,
            w1\<lparr>calls := calls w1 @ [ChatStream user_message final conversation_id]\<rparr>) \<and>
     distinct (map (\<lambda>d. map_of d ''text'') final) \<and>
     set (map (\<lambda>d. map_of d ''text'') final) = set (map (\<lambda>d. map_of d ''text'') docs) \<and>
     map (\<lambda>d. map_of d ''text'') final = rev (remdups (rev (map (\<lambda>d. map_of d ''text'') docs))) \<and>
     (\<forall>d\<in>set final. find (\<lambda>e. map_of e ''text'' = map_of d ''text'') docs = Some d)"
proof -
  have "\<forall>d\<in>set docs. map_of d ''text'' \<noteq> None"
    using retrieve_have_text [OF assms] .
  from dedup_loop_inv [OF this, of "[]"] obtain r where
    r: "dedup_loop [] docs = Inr r" and i: "dedup_inv [] docs r" by auto
  let ?final = "map snd r"
  from i have t: "\<forall>(t, d)\<in>set r. map_of d ''text'' = Some t"
    by (simp add: dedup_inv_def)
  then have m: "map (\<lambda>d. map_of d ''text'') ?final = map (\<lambda>(t, d). Some t) r"
    by auto
  from i have k: "map (\<lambda>(t, d). Some t) r = first_seen (map (\<lambda>d. map_of d ''text'') docs)"
    by (simp add: dedup_inv_def)
  have o: "map (\<lambda>d. map_of d ''text'') ?final = rev (remdups (rev (map (\<lambda>d. map_of d ''text'') docs)))"
    using m k by (simp add: first_seen_def)
  have f: "\<forall>d\<in>set ?final. find (\<lambda>e. map_of e ''text'' = map_of d ''text'') docs = Some d"
  proof
    fix d assume "d \<in> set ?final"
    then obtain t where td: "(t, d) \<in> set r" by auto
    with t have "map_of d ''text'' = Some t" by auto
    moreover from dedup_inv_first [OF i td]
    have "find (\<lambda>e. map_of e ''text'' = Some t) docs = Some d" by simp
    ultimately show "find (\<lambda>e. map_of e ''text'' = map_of d ''text'') docs = Some d" by simp
  qed
  have "respond p vs conversation_id w user_message =
       Inr (co_chat_stream p user_message ?final conversation_id,
            w1\<lparr>calls := calls w1 @ [ChatStream user_message ?final conversation_id]\<rparr>)"
    using retrieve_all_single [OF assms] r
    by (simp add: respond_def log_call_def Let_def del: retrieve_all.simps)
  moreover have "distinct (map (\<lambda>d. map_of d ''text'') ?final)"
    by (simp only: o distinct_rev distinct_remdups)
  moreover have "set (map (\<lambda>d. map_of d ''text'') ?final) = set (map (\<lambda>d. map_of d ''text'') docs)"
    by (simp only: o set_rev set_remdups)
  ultimately show ?thesis using o f by blast
qed

theorem respond_deduplicates_witness:
  "retrieve demo_providers demo_indexed_store demo_indexed_world ''why'' =
     Inr ([[(''text'', ''gamma'')], [(''text'', ''gamma'')]],
          demo_indexed_world\<lparr>calls :=
            [Embed [''why''] search_query, Query ''rag-qa-bot'' [3] 10,
             Rerank ''why'' [''gamma'', ''gamma''] 3]\<rparr>) \<and>
   (\<exists>final w'.
      respond demo_providers demo_indexed_store ''c1'' demo_indexed_world ''why'' =
        Inr (co_chat_stream demo_providers ''why'' final ''c1'', w') \<and>
      map (\<lambda>d. map_of d ''text'') final = [Some ''gamma''])"
proof -
  have h: "retrieve demo_providers demo_indexed_store demo_indexed_world ''why'' =
     Inr ([[(''text'', ''gamma'')], [(''text'', ''gamma'')]],
          demo_indexed_world\<lparr>calls :=
            [Embed [''why''] search_query, Query ''rag-qa-bot'' [3] 10,
             Rerank ''why'' [''gamma'', ''gamma''] 3]\<rparr>)"
    by (simp add: retrieve_def log_call_def demo_indexed_store_def demo_store_def
          demo_indexed_world_def demo_providers_def)
  from respond_deduplicates [OF h, of "''c1''"] obtain final where
    r: "respond demo_providers demo_indexed_store ''c1'' demo_indexed_world ''why'' =
       Inr (co_chat_stream demo_providers ''why'' final ''c1'',
            (demo_indexed_world\<lparr>calls :=
              [Embed [''why''] search_query, Query ''rag-qa-bot'' [3] 10,
               Rerank ''why'' [''gamma'', ''gamma''] 3]\<rparr>)
            \<lparr>calls := calls (demo_indexed_world\<lparr>calls :=
              [Embed [''why''] search_query, Query ''rag-qa-bot'' [3] 10,
               Rerank ''why'' [''gamma'', ''gamma''] 3]\<rparr>) @ [ChatStream ''why'' final ''c1'']\<rparr>)"
    and m: "map (\<lambda>d. map_of d ''text'') final =
       rev (remdups (rev (map (\<lambda>d. map_of d ''text'')
         [[(''text'', ''gamma'')], [(''text'', ''gamma'')]])))"
    by blast
  from m have g: "map (\<lambda>d. map_of d ''text'') final = [Some ''gamma'']" by simp
  have e: "\<exists>final w'.
      respond demo_providers demo_indexed_store ''c1'' demo_indexed_world ''why'' =
        Inr (co_chat_stream demo_providers ''why'' final ''c1'', w') \<and>
      map (\<lambda>d. map_of d ''text'') final = [Some ''gamma'']"
    by (rule exI [of _ final], rule exI, rule conjI [OF r g])
  show ?thesis by (rule conjI [OF h e])
qed

text \<open>
  C3, as stated: on a store without an index \<open>respond\<close> sends no request. It fails:
  the retrieval sends none and returns no document, and \<open>respond\<close> goes on to send the
  generation request with an empty document list and returns the provider's stream.
\<close>

theorem respond_without_index_counterexample:
  "index demo_store = None \<and>
   respond demo_providers demo_store ''c1'' demo_world ''why'' =
     Inr ([''ok''], demo_world\<lparr>calls := [ChatStream ''why'' [] ''c1'']\<rparr>)"
  by (simp add: respond_def retrieve_def log_call_def demo_store_def demo_world_def
        demo_providers_def)

text \<open>
  C3, amended: on a store without an index \<open>respond\<close> sends no embedding, index or
  rerank request, sends one generation request with the user message and an empty
  document list, and returns the stream of that request.
\<close>

theorem respond_without_index:
  "index vs = None \<Longrightarrow>
   respond p vs conversation_id w user_message =
     Inr (co_chat_stream p user_message [] conversation_id,
          w\<lparr>calls := calls w @ [ChatStream user_message [] conversation_id]\<rparr>)"
  by (simp add: respond_def retrieve_def log_call_def)

theorem respond_without_index_witness:
  "index demo_store = None \<and>
   respond demo_providers demo_store ''c1'' demo_world ''why'' =
     Inr (co_chat_stream demo_providers ''why'' [] ''c1'',
          demo_world\<lparr>calls := calls demo_world @ [ChatStream ''why'' [] ''c1'']\<rparr>)"
proof -
  have h: "index demo_store = None" by (simp add: demo_store_def)
  from respond_without_index [OF h] h show ?thesis by blast
qed

section \<open>The claims about ingestion\<close>

text \<open>
  C9. The chunker never returns the empty list, for any text and any chunk size, so
  \<open>process_document\<close> never leaves at its no-chunks return.
\<close>

theorem split_text_never_empty:
  "split_text t chunk_size \<noteq> [] \<and>
   process_document p vs w pdf_path \<noteq> Some (Inr (NoChunks, vs', w'))"
proof
  show "split_text t chunk_size \<noteq> []" by (rule split_text_not_Nil)
  show "process_document p vs w pdf_path \<noteq> Some (Inr (NoChunks, vs', w'))"
    by (simp add: process_document_def split_text_not_Nil Let_def
          split: sum.splits option.splits prod.splits)
qed



text \<open>
  C2. On the empty text the chunker returns the one chunk \<open>"."\<close>, not the empty list,
  and \<open>process_document\<close> on a file without text runs to its end: it embeds that chunk
  and replaces the contents of the index with it.
\<close>

theorem split_text_empty_text:
  "split_text [] 1000 = [''.''] \<and>
   process_document demo_providers demo_store demo_world ''empty.pdf'' =
     Some (Inr (Finished, demo_store\<lparr>index := Some ''rag-qa-bot''\<rparr>,
       \<lparr>pc_indexes = [''rag-qa-bot''],
        pc_data = (\<lambda>name. Map.empty)(''rag-qa-bot'' := [''0'' \<mapsto> ([1], [(''text'', ''.'')])]),
        calls = [Embed [''.''] search_document, ListIndexes, CreateIndex ''rag-qa-bot'' 1024,
                 DescribeIndex ''rag-qa-bot'', DescribeIndex ''rag-qa-bot'',
                 DescribeIndex ''rag-qa-bot'', DeleteAll ''rag-qa-bot'',
                 Upsert ''rag-qa-bot''
                   [\<lparr>vec_id = ''0'', vec_values = [1], vec_metadata = [(''text'', ''.'')]\<rparr>],
                 DescribeIndexStats ''rag-qa-bot'']\<rparr>))"
proof
  show c: "split_text [] 1000 = [''.'']"
    by (simp add: split_text_def strip_def isspace_def)
  have e: "embed_chunks demo_providers demo_world [''.''] 90 =
      Inr ([[1]], demo_world\<lparr>calls := [Embed [''.''] search_document]\<rparr>)"
    by (simp add: embed_chunks_def embed_loop.simps slice_def log_call_def demo_providers_def
          demo_world_def)
  have w: "wait_ready (index_ready demo_providers) 0 = Some (Suc (Suc 0))"
    by (simp add: wait_ready.simps demo_providers_def)
  have v: "vectors_to_upsert [''.''] [[1]] =
      [\<lparr>vec_id = ''0'', vec_values = [1], vec_metadata = [(''text'', ''.'')]\<rparr>]"
    by (simp add: vectors_to_upsert_def str_nat_0)
  have n: "ensure_index demo_providers demo_store (demo_world\<lparr>calls := [Embed [''.''] search_document]\<rparr>) =
      Some \<lparr>pc_indexes = [''rag-qa-bot''], pc_data = (\<lambda>name. Map.empty),
            calls = [Embed [''.''] search_document, ListIndexes, CreateIndex ''rag-qa-bot'' 1024,
                     DescribeIndex ''rag-qa-bot'', DescribeIndex ''rag-qa-bot'',
                     DescribeIndex ''rag-qa-bot'']\<rparr>"
    by (simp add: ensure_index_def w) (simp add: demo_store_def demo_world_def fun_eq_iff)
  have u: "upsert_loop ''rag-qa-bot''
        [\<lparr>vec_id = ''0'', vec_values = [1], vec_metadata = [(''text'', ''.'')]\<rparr>] 0 w0 =
      index_upsert ''rag-qa-bot''
        [\<lparr>vec_id = ''0'', vec_values = [1], vec_metadata = [(''text'', ''.'')]\<rparr>] w0" for w0
    by (simp add: upsert_loop.simps slice_def)
  have i: "index_chunks demo_providers demo_store
        (demo_world\<lparr>calls := [Embed [''.''] search_document]\<rparr>) [''.''] [[1]] =
      Some (demo_store\<lparr>index := Some ''rag-qa-bot''\<rparr>,
       \<lparr>pc_indexes = [''rag-qa-bot''],
        pc_data = (\<lambda>name. Map.empty)(''rag-qa-bot'' := [''0'' \<mapsto> ([1], [(''text'', ''.'')])]),
        calls = [Embed [''.''] search_document, ListIndexes, CreateIndex ''rag-qa-bot'' 1024,
                 DescribeIndex ''rag-qa-bot'', DescribeIndex ''rag-qa-bot'',
                 DescribeIndex ''rag-qa-bot'', DeleteAll ''rag-qa-bot'',
                 Upsert ''rag-qa-bot''
                   [\<lparr>vec_id = ''0'', vec_values = [1], vec_metadata = [(''text'', ''.'')]\<rparr>],
                 DescribeIndexStats ''rag-qa-bot'']\<rparr>)"
    by (simp add: index_chunks_def n v)
       (simp add: demo_store_def u index_upsert_def index_delete_all_def upsert_vec_def log_call_def)
  have x: "extract_text_from_pdf demo_providers ''empty.pdf'' = Inr []"
    by (simp add: extract_text_from_pdf_def demo_providers_def)
  show "process_document demo_providers demo_store demo_world ''empty.pdf'' =
     Some (Inr (Finished, demo_store\<lparr>index := Some ''rag-qa-bot''\<rparr>,
       \<lparr>pc_indexes = [''rag-qa-bot''],
        pc_data = (\<lambda>name. Map.empty)(''rag-qa-bot'' := [''0'' \<mapsto> ([1], [(''text'', ''.'')])]),
        calls = [Embed [''.''] search_document, ListIndexes, CreateIndex ''rag-qa-bot'' 1024,
                 DescribeIndex ''rag-qa-bot'', DescribeIndex ''rag-qa-bot'',
                 DescribeIndex ''rag-qa-bot'', DeleteAll ''rag-qa-bot'',
                 Upsert ''rag-qa-bot''
                   [\<lparr>vec_id = ''0'', vec_values = [1], vec_metadata = [(''text'', ''.'')]\<rparr>],
                 DescribeIndexStats ''rag-qa-bot'']\<rparr>))"
    by (simp add: process_document_def x c e i)
qed

end
